theory Spec2Isabelle
  imports Main "HOL-Library.Sublist"
begin

section \<open>The code-run agent: configuration rewriting and sandboxed execution\<close>

text \<open>
  This theory embeds \<^verbatim>\<open>src/api/coderun-agent/agent.py\<close>: the configuration rewriter
  \<^verbatim>\<open>replace_ibm_quantum_config\<close>, the sandbox \<^verbatim>\<open>execute_python_code\<close> and the request
  handler \<^verbatim>\<open>run_program\<close>.  Python strings are modelled as \<^typ>\<open>string\<close> (one \<^typ>\<open>char\<close> per
  code point, code points below 256), Python exceptions as the left summand of a sum type.
\<close>

subsection \<open>Python values and exceptions\<close>

datatype py_exception =
    TemplateError            \<comment> \<open>\<^verbatim>\<open>re.error\<close> or \<^verbatim>\<open>IndexError\<close> of the template parser of \<^verbatim>\<open>re.sub\<close>\<close>
  | IndexError               \<comment> \<open>list assignment index out of range\<close>
  | KeyError string          \<comment> \<open>\<^verbatim>\<open>data["input_value"]\<close> on a missing key\<close>
  | JSONDecodeError          \<comment> \<open>\<^verbatim>\<open>request.json()\<close> on a body that is not JSON\<close>
  | BaseExc string           \<comment> \<open>a \<^verbatim>\<open>BaseException\<close> that is not an \<^verbatim>\<open>Exception\<close> (\<^verbatim>\<open>SystemExit\<close>, ...)\<close>
  | ValueError string        \<comment> \<open>\<^verbatim>\<open>getvalue()\<close> on a closed \<^verbatim>\<open>StringIO\<close>, with its message\<close>
  | TypeError                \<comment> \<open>\<^verbatim>\<open>data["input_value"]\<close> on JSON that is not an object\<close>
  | UnicodeDecodeError       \<comment> \<open>\<^verbatim>\<open>request.json()\<close> on a body that is not UTF-8\<close>
  | Other string             \<comment> \<open>an exception of any other class, with the name of the class\<close>

text \<open>A dictionary whose values are strings or \<^verbatim>\<open>None\<close>; \<^verbatim>\<open>None\<close> for "no dictionary".\<close>

type_synonym py_dict = "(string \<times> string option) list"

definition dict_get :: "py_dict \<Rightarrow> string \<Rightarrow> string option" where
  \<comment> \<open>\<^verbatim>\<open>d.get(k)\<close>: \<^verbatim>\<open>None\<close> when the key is missing\<close>
  "dict_get d k = (case map_of d k of None \<Rightarrow> None | Some v \<Rightarrow> v)"

definition dict_get_default :: "py_dict \<Rightarrow> string \<Rightarrow> string \<Rightarrow> string option" where
  \<comment> \<open>\<^verbatim>\<open>d.get(k, default)\<close>: the default only when the key is missing\<close>
  "dict_get_default d k dflt = (case map_of d k of None \<Rightarrow> Some dflt | Some v \<Rightarrow> v)"

fun truthy :: "string option \<Rightarrow> bool" where
  \<comment> \<open>Python truth value of a string or \<^verbatim>\<open>None\<close>\<close>
  "truthy None = False"
| "truthy (Some s) = (s \<noteq> [])"

fun py_str :: "string option \<Rightarrow> string" where
  \<comment> \<open>how an f-string renders a string or \<^verbatim>\<open>None\<close>\<close>
  "py_str None = ''None''"
| "py_str (Some s) = s"

subsection \<open>String operations\<close>

definition nl :: char where "nl = CHR 0x0A"
definition sq :: char where "sq = CHR 0x27"
definition bsl :: char where "bsl = CHR 0x5C"

fun str_in :: "string \<Rightarrow> string \<Rightarrow> bool" where
  \<comment> \<open>\<^verbatim>\<open>pat in s\<close>\<close>
  "str_in pat [] = (pat = [])"
| "str_in pat (c # cs) = (prefix pat (c # cs) \<or> str_in pat cs)"

function str_replace :: "string \<Rightarrow> string \<Rightarrow> string \<Rightarrow> string" where
  \<comment> \<open>\<^verbatim>\<open>s.replace(old, new)\<close>: every non-overlapping occurrence, scanning from the left\<close>
  "str_replace old new s =
     (if old = [] then new @ concat (map (\<lambda>c. c # new) s)
      else if s = [] then []
      else if prefix old s then new @ str_replace old new (drop (length old) s)
      else hd s # str_replace old new (tl s))"
  by pat_completeness auto
termination
  by (relation "measure (\<lambda>(old, new, s). length s)") (auto simp: neq_Nil_conv)

declare str_replace.simps [simp del]

fun str_join :: "string \<Rightarrow> string list \<Rightarrow> string" where
  \<comment> \<open>\<^verbatim>\<open>sep.join(xs)\<close>\<close>
  "str_join sep [] = []"
| "str_join sep [x] = x"
| "str_join sep (x # y # ys) = x @ sep @ str_join sep (y # ys)"

subsection \<open>The fragment of regular expressions the program uses\<close>

text \<open>
  The patterns of the program are built from literal text, the classes \<^verbatim>\<open>.\<close> (without
  \<^verbatim>\<open>re.DOTALL\<close>), \<^verbatim>\<open>\d\<close> and \<^verbatim>\<open>[^c]\<close>, the greedy \<^verbatim>\<open>+\<close> and the lazy \<^verbatim>\<open>*?\<close> on a class.
  \<open>rmatch\<close> lists, in the order in which a backtracking matcher tries them, the
  remainders of the input after each way of matching at its start; the first one is the match
  Python reports.
\<close>

datatype cls = Any_but_newline | Digit | Not_char char

fun cls_ok :: "cls \<Rightarrow> char \<Rightarrow> bool" where
  "cls_ok Any_but_newline c = (c \<noteq> nl)"
| "cls_ok Digit c = (c \<in> set ''0123456789'')"
| "cls_ok (Not_char d) c = (c \<noteq> d)"

datatype rx = Lit string | Plus_greedy cls | Star_lazy cls | Seq rx rx

fun rmatch :: "rx \<Rightarrow> string \<Rightarrow> string list" where
  "rmatch (Lit l) s = (if prefix l s then [drop (length l) s] else [])"
| "rmatch (Plus_greedy c) s =
     map (\<lambda>k. drop k s) (rev [1 ..< Suc (length (takeWhile (cls_ok c) s))])"
| "rmatch (Star_lazy c) s =
     map (\<lambda>k. drop k s) [0 ..< Suc (length (takeWhile (cls_ok c) s))]"
| "rmatch (Seq a b) s = concat (map (rmatch b) (rmatch a s))"

definition re_match :: "rx \<Rightarrow> string \<Rightarrow> nat option" where
  \<comment> \<open>length of the match at the start of the input\<close>
  "re_match r s = (case rmatch r s of [] \<Rightarrow> None | t # _ \<Rightarrow> Some (length s - length t))"

fun re_search :: "rx \<Rightarrow> string \<Rightarrow> bool" where
  \<comment> \<open>\<^verbatim>\<open>re.search(r, s)\<close> is not \<^verbatim>\<open>None\<close>\<close>
  "re_search r [] = (re_match r [] \<noteq> None)"
| "re_search r (c # cs) = (re_match r (c # cs) \<noteq> None \<or> re_search r cs)"

text \<open>
  Every pattern of the program consumes at least one character, so the special treatment
  Python gives to empty matches in \<^verbatim>\<open>re.sub\<close> and \<^verbatim>\<open>re.split\<close> never arises; the two
  scans below step over a position where the match is empty.
\<close>

function re_sub_scan :: "rx \<Rightarrow> (string \<Rightarrow> string) \<Rightarrow> string \<Rightarrow> string" where
  "re_sub_scan r f [] = []"
| "re_sub_scan r f (c # cs) =
     (case re_match r (c # cs) of
        Some (Suc k) \<Rightarrow> f (take (Suc k) (c # cs)) @ re_sub_scan r f (drop k cs)
      | _ \<Rightarrow> c # re_sub_scan r f cs)"
  by pat_completeness auto
termination
  by (relation "measure (\<lambda>(r, f, s). length s)") auto

function re_split_scan :: "rx \<Rightarrow> string \<Rightarrow> string \<Rightarrow> string list" where
  \<comment> \<open>\<^verbatim>\<open>re.split("(r)", s)\<close>: the text between the matches and, the pattern being one
      group, the matches themselves; the first argument is the text read since the last match\<close>
  "re_split_scan r acc [] = [acc]"
| "re_split_scan r acc (c # cs) =
     (case re_match r (c # cs) of
        Some (Suc k) \<Rightarrow> acc # take (Suc k) (c # cs) # re_split_scan r [] (drop k cs)
      | _ \<Rightarrow> re_split_scan r (acc @ [c]) cs)"
  by pat_completeness auto
termination
  by (relation "measure (\<lambda>(r, acc, s). length s)") auto

definition re_split :: "rx \<Rightarrow> string \<Rightarrow> string list" where
  "re_split r s = re_split_scan r [] s"

subsection \<open>Replacement templates of \<^verbatim>\<open>re.sub\<close>\<close>

text \<open>
  \<^verbatim>\<open>re.sub\<close> reads its replacement as a template (\<^verbatim>\<open>re._parser.parse_template\<close> of
  CPython 3.12): a backslash starts an escape.  No pattern of the program has a group, so
  the only group reference that does not raise is group 0, the whole match.
\<close>

datatype titem = TLit string | TGroup0

definition octdigits :: "char set" where "octdigits = set ''01234567''"
definition digits :: "char set" where "digits = set ''0123456789''"
definition asciiletters :: "char set" where
  "asciiletters = set ''abcdefghijklmnopqrstuvwxyzABCDEFGHIJKLMNOPQRSTUVWXYZ''"

definition octval :: "string \<Rightarrow> nat" where
  \<comment> \<open>\<^verbatim>\<open>int(ds, 8)\<close>\<close>
  "octval ds = foldl (\<lambda>n d. 8 * n + (of_char d - 48)) 0 ds"

definition escapes :: "char \<Rightarrow> char option" where
  \<comment> \<open>the table \<^verbatim>\<open>ESCAPES\<close>: a, b, f, n, r, t, v and the backslash\<close>
  "escapes c =
     (if c = CHR ''a'' then Some (CHR 0x07) else if c = CHR ''b'' then Some (CHR 0x08)
      else if c = CHR ''f'' then Some (CHR 0x0C) else if c = CHR ''n'' then Some (CHR 0x0A)
      else if c = CHR ''r'' then Some (CHR 0x0D) else if c = CHR ''t'' then Some (CHR 0x09)
      else if c = CHR ''v'' then Some (CHR 0x0B) else if c = bsl then Some bsl
      else None)"

definition escape_step :: "string \<Rightarrow> py_exception + (titem \<times> nat)" where
  \<comment> \<open>the escape whose backslash has just been read: its item and how many characters of
      the input it takes\<close>
  "escape_step cs =
     (case cs of
        [] \<Rightarrow> Inl TemplateError  \<comment> \<open>bad escape (end of pattern)\<close>
      | e # rest \<Rightarrow>
          if e = CHR ''g'' then
            (case rest of
               [] \<Rightarrow> Inl TemplateError  \<comment> \<open>missing \<^verbatim>\<open><\<close>\<close>
             | lt # rest' \<Rightarrow>
                 if lt \<noteq> CHR ''<'' then Inl TemplateError
                 else let name = takeWhile (\<lambda>x. x \<noteq> CHR ''>'') rest'
                      in if name = [] \<or> length name = length rest' then Inl TemplateError
                           \<comment> \<open>missing group name; missing \<^verbatim>\<open>>\<close>, unterminated name\<close>
                         else if (\<exists>x \<in> set name. x \<noteq> CHR ''0'') then Inl TemplateError
                           \<comment> \<open>bad character in group name, unknown group name, or
                               invalid group reference: only group 0 exists\<close>
                         else Inr (TGroup0, length name + 3))
          else if e = CHR ''0'' then
            (let ds = takeWhile (\<lambda>x. x \<in> octdigits) (take 2 rest)
             in Inr (TLit [char_of (octval ds mod 256)], Suc (length ds)))
          else if e \<in> digits then
            (case rest of
               d2 # d3 # rest' \<Rightarrow>
                 if d2 \<in> digits \<and> e \<in> octdigits \<and> d2 \<in> octdigits \<and> d3 \<in> octdigits then
                   (if octval [e, d2, d3] > 255 then Inl TemplateError
                      \<comment> \<open>octal escape value outside of range 0-0o377\<close>
                    else Inr (TLit [char_of (octval [e, d2, d3])], 3))
                 else Inl TemplateError  \<comment> \<open>invalid group reference\<close>
             | _ \<Rightarrow> Inl TemplateError)
          else (case escapes e of
                  Some x \<Rightarrow> Inr (TLit [x], 1)
                | None \<Rightarrow>
                    if e \<in> asciiletters then Inl TemplateError  \<comment> \<open>bad escape\<close>
                    else Inr (TLit [bsl, e], 1)))"

fun parse_template :: "string \<Rightarrow> py_exception + titem list" where
  "parse_template [] = Inr []"
| "parse_template (c # cs) =
     (if c \<noteq> bsl then map_sum id ((#) (TLit [c])) (parse_template cs)
      else case escape_step cs of
             Inl e \<Rightarrow> Inl e
           | Inr (item, k) \<Rightarrow> map_sum id ((#) item) (parse_template (drop k cs)))"

fun expand_template :: "titem list \<Rightarrow> string \<Rightarrow> string" where
  \<comment> \<open>the text that replaces the match \<open>m\<close>\<close>
  "expand_template [] m = []"
| "expand_template (TLit l # t) m = l @ expand_template t m"
| "expand_template (TGroup0 # t) m = m @ expand_template t m"

definition re_sub :: "rx \<Rightarrow> string \<Rightarrow> string \<Rightarrow> py_exception + string" where
  \<comment> \<open>\<^verbatim>\<open>re.sub(r, repl, s)\<close>\<close>
  "re_sub r repl s =
     (case parse_template repl of
        Inl e \<Rightarrow> Inl e
      | Inr t \<Rightarrow> Inr (re_sub_scan r (expand_template t) s))"

subsection \<open>The rewriter: \<^verbatim>\<open>replace_ibm_quantum_config\<close>\<close>

text \<open>The local-simulator block: the text \<open>aer_pattern\<close> matches, and the replacement of the
  rules that apply when no token is given.\<close>

definition aer_block :: string where
  \<open>aer_block =
     ''from qiskit_aer import AerSimulator\<newline>\<newline>backend = AerSimulator()\<newline>print("Using local simulator...")''\<close>

definition aer_pattern :: rx where
  "aer_pattern = Lit aer_block"

definition ibm_block_no_token :: string where
  "ibm_block_no_token =
     ''from qiskit_ibm_runtime import QiskitRuntimeService\<newline>\<newline>service = QiskitRuntimeService()\<newline>backend = service.least_busy(operational=True, simulator=False)''"

definition ibm_pattern_no_token :: rx where
  "ibm_pattern_no_token = Lit ibm_block_no_token"

definition ibm_pattern_with_token :: rx where
  "ibm_pattern_with_token =
     Seq (Lit (''from qiskit_ibm_runtime import QiskitRuntimeService\<newline>\<newline>service = QiskitRuntimeService(token='' @ [sq]))
    (Seq (Plus_greedy (Not_char sq))
         (Lit ([sq] @ '')\<newline>backend = service.least_busy(operational=True, simulator=False)'')))"

definition service_params :: "py_dict \<Rightarrow> string list" where
  \<open>service_params ibm_config =
     (let token = dict_get ibm_config ''token'';
          channel = dict_get_default ibm_config ''channel'' ''ibm_quantum'';
          instance = dict_get ibm_config ''instance'';
          region = dict_get ibm_config ''region''
      in [''channel="'' @ py_str channel @ ''"'', ''token="'' @ py_str token @ ''"'']
         @ (if truthy instance then [''instance="'' @ py_str instance @ ''"''] else [])
         @ (if truthy region then [''region="'' @ py_str region @ ''"''] else []))\<close>

definition service_params_str :: "py_dict \<Rightarrow> string" where
  "service_params_str ibm_config = str_join '',\<newline>    '' (service_params ibm_config)"

definition ibm_replacement :: "py_dict \<Rightarrow> string" where
  \<comment> \<open>the f-string \<^verbatim>\<open>replacement\<close> of the branch with a token\<close>
  \<open>ibm_replacement ibm_config =
     ''from qiskit_ibm_runtime import QiskitRuntimeService\<newline>\<newline># Initialize IBM Quantum Runtime Service with provided configuration\<newline>service = QiskitRuntimeService(\<newline>    ''
     @ service_params_str ibm_config
     @ ''\<newline>)\<newline>backend = service.least_busy(operational=True, simulator=False)\<newline>print(f"Using IBM Quantum backend: {backend.name}")''\<close>

definition bare_call :: string where
  "bare_call = ''QiskitRuntimeService()''"

definition token_present :: "string \<Rightarrow> py_dict \<Rightarrow> py_exception + string" where
  \<comment> \<open>the body of \<^verbatim>\<open>if ibm_config and ibm_config.get("token")\<close>\<close>
  "token_present code ibm_config =
     (let replacement = ibm_replacement ibm_config in
      if re_search aer_pattern code then re_sub aer_pattern replacement code
      else if re_search ibm_pattern_no_token code then
        re_sub ibm_pattern_no_token replacement code
      else if re_search ibm_pattern_with_token code then
        re_sub ibm_pattern_with_token replacement code
      else if str_in bare_call code then
        Inr (str_replace bare_call
               (''QiskitRuntimeService(\<newline>    '' @ service_params_str ibm_config @ ''\<newline>)'')
               code)
      else Inr code)"

definition ibm_config_pattern :: rx where
  "ibm_config_pattern = Lit ''## STEP 0 : IBM Quantum Config''"

definition step_marker :: rx where
  \<comment> \<open>\<^verbatim>\<open>## STEP \d+.*?\n\<close>, the group of the \<^verbatim>\<open>re.split\<close>\<close>
  "step_marker =
     Seq (Lit ''## STEP '') (Seq (Plus_greedy Digit) (Seq (Star_lazy Any_but_newline) (Lit [nl])))"

definition options_pattern :: rx where
  \<comment> \<open>\<^verbatim>\<open>.*?\.options\..*?\n\<close>\<close>
  "options_pattern =
     Seq (Star_lazy Any_but_newline)
    (Seq (Lit ''.options.'') (Seq (Star_lazy Any_but_newline) (Lit [nl])))"

definition ibm_patterns :: "rx list" where
  \<open>ibm_patterns =
     [Seq (Lit (''from qiskit_ibm_runtime import QiskitRuntimeService\<newline>\<newline>service = QiskitRuntimeService(token='' @ [sq]))
     (Seq (Plus_greedy (Not_char sq))
     (Seq (Lit ([sq] @ '')\<newline>backend = service.least_busy(operational=True, simulator=False)\<newline>print(f"Using IBM Quantum backend: {''))
     (Seq (Plus_greedy (Not_char (CHR ''}''))) (Lit ''}")'')))),
      Lit ibm_block_no_token]\<close>

function step0_loop :: "nat \<Rightarrow> string list \<Rightarrow> py_exception + string list" where
  \<comment> \<open>\<^verbatim>\<open>for i in range(1, len(sections), 2)\<close>, from index \<open>i\<close> on\<close>
  "step0_loop i sections =
     (if i < length sections then
        (if str_in ''STEP 0'' (sections ! i) \<and> str_in ''IBM Quantum Config'' (sections ! i) then
           (if i + 1 < length sections
            then Inr (sections[i + 1 := [nl] @ aer_block @ [nl, nl]])
            else Inl IndexError)
         else step0_loop (i + 2) sections)
      else Inr sections)"
  by pat_completeness auto
termination
  by (relation "measure (\<lambda>(i, sections). length sections - i)") auto

declare step0_loop.simps [simp del]

fun try_patterns :: "rx list \<Rightarrow> string \<Rightarrow> py_exception + string" where
  \<comment> \<open>\<^verbatim>\<open>for i, pattern in enumerate(ibm_patterns)\<close> and the final \<^verbatim>\<open>return code\<close>\<close>
  "try_patterns [] code = Inr code"
| "try_patterns (pattern # rest) code =
     (if re_search pattern code then
        (case re_sub pattern aer_block code of
           Inl e \<Rightarrow> Inl e
         | Inr modified_code \<Rightarrow> re_sub options_pattern [] modified_code)
      else try_patterns rest code)"

definition token_absent :: "string \<Rightarrow> py_exception + string" where
  \<comment> \<open>the function from \<^verbatim>\<open>ibm_config_pattern\<close> on, reached in local mode without a token\<close>
  "token_absent code =
     (if re_search ibm_config_pattern code \<and> length (re_split step_marker code) \<ge> 3 then
        (case step0_loop 1 (re_split step_marker code) of
           Inl e \<Rightarrow> Inl e
         | Inr sections \<Rightarrow> re_sub options_pattern [] (concat sections))
      else try_patterns ibm_patterns code)"

definition has_token :: "py_dict option \<Rightarrow> bool" where
  \<comment> \<open>\<^verbatim>\<open>ibm_config and ibm_config.get("token")\<close>; an empty dictionary is false\<close>
  "has_token ibm_config =
     (case ibm_config of None \<Rightarrow> False | Some d \<Rightarrow> d \<noteq> [] \<and> truthy (dict_get d ''token''))"

definition replace_ibm_quantum_config ::
    "bool \<Rightarrow> string \<Rightarrow> py_dict option \<Rightarrow> py_exception + string" where
  \<comment> \<open>the first argument is the global \<^verbatim>\<open>LOCAL_MODE\<close>\<close>
  "replace_ibm_quantum_config local_mode code ibm_config =
     (case ibm_config of
        Some d \<Rightarrow>
          if d \<noteq> [] \<and> truthy (dict_get d ''token'') then token_present code d
          else if \<not> local_mode then Inr code
          else token_absent code
      | None \<Rightarrow>
          if \<not> local_mode then Inr code
          else token_absent code)"

subsection \<open>The rewriting in words\<close>

text \<open>
  The next definitions are not taken from the code: they say, on lines and on sections, what
  the regular expressions of the rules for no token are shown below to do.
\<close>

fun drop_option_lines :: "string \<Rightarrow> string \<Rightarrow> string" where
  \<comment> \<open>every line that ends in a newline and contains \<^verbatim>\<open>.options.\<close> is deleted; the first
      argument is the part of the current line already read\<close>
  "drop_option_lines line [] = line"
| "drop_option_lines line (c # cs) =
     (if c = nl
      then (if str_in ''.options.'' line then [] else line @ [nl]) @ drop_option_lines [] cs
      else drop_option_lines (line @ [c]) cs)"

fun with_body_replaced :: "string list \<Rightarrow> string list" where
  \<comment> \<open>on the list marker, body, marker, body, ...: the body after the first marker that
      contains \<^verbatim>\<open>STEP 0\<close> and \<^verbatim>\<open>IBM Quantum Config\<close> becomes the local-simulator block\<close>
  "with_body_replaced (h # b # rest) =
     (if str_in ''STEP 0'' h \<and> str_in ''IBM Quantum Config'' h
      then h # ([nl] @ aer_block @ [nl, nl]) # rest
      else h # b # with_body_replaced rest)"
| "with_body_replaced xs = xs"



abbreviation line_end :: rx where
  "line_end \<equiv> Seq (Star_lazy Any_but_newline) (Lit [nl])"

abbreviation opts :: string where
  "opts \<equiv> ''.options.''"

subsection \<open>The sandbox: \<^verbatim>\<open>execute_python_code\<close>\<close>

text \<open>
  \<^verbatim>\<open>exec\<close> belongs to the Python interpreter, not to the program, so it is a parameter: it
  maps the code, the globals it is given and the state of the process (everything that
  outlives the call: the \<^verbatim>\<open>builtins\<close> module, imported modules, ...) to a run and the
  state of the process afterwards.  A run is what the sandbox can observe of the execution:
  \<^item> the writes to standard output and standard error, in the order they happen;
  \<^item> the two \<^verbatim>\<open>StringIO\<close> captures as the execution leaves them.  The buffer reaches them
    as \<^verbatim>\<open>sys.stdout\<close> and \<^verbatim>\<open>sys.stderr\<close>: it can close them, seek and truncate them, or
    put other objects in their place, and the redirection is that of the whole process, so a
    request running at the same time writes to them too.  A capture therefore holds any
    text, not necessarily what was written, or is closed;
  \<^item> how the execution ends: an exception is given by what \<^verbatim>\<open>str(e)\<close> does, which is
    code of the buffer when the buffer defines the class of the exception;
  \<^item> the seconds it takes.

  The calls of the logger are left out.  The names the function itself uses (\<^verbatim>\<open>logger\<close>,
  \<^verbatim>\<open>io\<close>, \<^verbatim>\<open>contextlib\<close>, \<^verbatim>\<open>str\<close>, \<^verbatim>\<open>Exception\<close>) are taken to stay bound as the
  source binds them: a buffer that rebinds them in the module of the agent or in
  \<^verbatim>\<open>builtins\<close> is not modelled.
\<close>

datatype chan = Stdout | Stderr

datatype capture = Closed | Holds string

datatype ending =
    Finished
  | Raised "py_exception + string"
      \<comment> \<open>an \<^verbatim>\<open>Exception\<close> \<open>e\<close>: the text \<^verbatim>\<open>str(e)\<close> returns, or what it raises\<close>
  | Raised_base string
      \<comment> \<open>a \<^verbatim>\<open>BaseException\<close> that is not an \<^verbatim>\<open>Exception\<close>, with its name\<close>

record run =
  writes :: "(chan \<times> string) list"
  stdout_capture :: capture
  stderr_capture :: capture
  ending :: ending
  seconds :: nat

datatype gval = Builtins  \<comment> \<open>the object \<^verbatim>\<open>__builtins__\<close> of the agent, shared by every call\<close>

type_synonym 'p python = "string \<Rightarrow> (string \<times> gval) list \<Rightarrow> 'p \<Rightarrow> run \<times> 'p"

definition closed_file :: string where
  \<comment> \<open>the message of the \<^verbatim>\<open>ValueError\<close> of a closed \<^verbatim>\<open>StringIO\<close>\<close>
  "closed_file = ''I/O operation on closed file''"

fun getvalue :: "capture \<Rightarrow> py_exception + string" where
  \<comment> \<open>\<^verbatim>\<open>StringIO.getvalue()\<close>\<close>
  "getvalue Closed = Inl (ValueError closed_file)"
| "getvalue (Holds s) = Inr s"

definition except_branch :: "run \<Rightarrow> py_exception + string \<Rightarrow> py_exception + string" where
  \<comment> \<open>the branch \<^verbatim>\<open>except Exception as e\<close>; the second argument is what \<^verbatim>\<open>str(e)\<close> does.
      Nothing guards the two calls: what they raise leaves the function\<close>
  "except_branch r str_e =
     (case getvalue (stderr_capture r) of
        Inl x \<Rightarrow> Inl x
      | Inr stderr_output \<Rightarrow>
          (case str_e of
             Inl x \<Rightarrow> Inl x
           | Inr msg \<Rightarrow> Inr (''Error executing code: '' @ msg @ [nl] @ stderr_output)))"

definition execute_python_code ::
    "'p python \<Rightarrow> bool \<Rightarrow> string \<Rightarrow> py_dict option \<Rightarrow> 'p \<Rightarrow> (py_exception + string) \<times> nat \<times> 'p" where
  \<comment> \<open>the value returned or the exception raised, the seconds the call takes, and the
      state of the process after it\<close>
  "execute_python_code exec local_mode code ibm_config p =
     (case replace_ibm_quantum_config local_mode code ibm_config of
        Inl e \<Rightarrow> (Inl e, 0, p)  \<comment> \<open>raised before the \<^verbatim>\<open>try\<close>\<close>
      | Inr code' \<Rightarrow>
          let exec_globals = [(''__builtins__'', Builtins)];
              (r, p') = exec code' exec_globals p
          in ((case ending r of
                 Finished \<Rightarrow>
                   (case getvalue (stdout_capture r) of
                      Inl x \<Rightarrow> except_branch r (Inr closed_file)
                    | Inr stdout_output \<Rightarrow>
                        (case getvalue (stderr_capture r) of
                           Inl x \<Rightarrow> except_branch r (Inr closed_file)
                         | Inr stderr_output \<Rightarrow>
                             (let output = (if stdout_output \<noteq> [] then stdout_output else [])
                                           @ (if stderr_output \<noteq> [] then stderr_output else [])
                              in Inr (if output \<noteq> [] then output
                                      else ''Code executed successfully (no output)''))))
               | Raised str_e \<Rightarrow> except_branch r str_e
               | Raised_base name \<Rightarrow> Inl (BaseExc name)),
              seconds r, p'))"



subsection \<open>The request handler: \<^verbatim>\<open>run_program\<close>\<close>

text \<open>
  The body of a request is not UTF-8, or not JSON, or JSON that is not an object, or a JSON
  object.  The fields of an object are strings, as the interface types them; an object with
  a field of another type is not modelled.
\<close>

datatype body = Invalid_utf8 | Invalid_json | Json_not_object | Json "(string \<times> string) list"

record response =
  status_code :: nat
  content :: "(string \<times> string) list"

definition JSONResponse :: "(string \<times> string) list \<Rightarrow> response" where
  "JSONResponse c = \<lparr>status_code = 200, content = c\<rparr>"

definition json_decode_exception_handler :: response where
  "json_decode_exception_handler =
     \<lparr>status_code = 400, content = [(''detail'', ''Invalid JSON format in request body'')]\<rparr>"

definition timeout_seconds :: nat where
  "timeout_seconds = 30 * 60"

definition make_ibm_config :: "(string \<times> string) list \<Rightarrow> py_dict option" where
  \<comment> \<open>the dictionary \<^verbatim>\<open>ibm_config\<close> that \<^verbatim>\<open>run_program\<close> builds from the request\<close>
  "make_ibm_config data =
     (let ibm_token = map_of data ''ibm_token'';
          channel = (case map_of data ''channel'' of None \<Rightarrow> Some ''ibm_quantum'' | Some c \<Rightarrow> Some c);
          instance = map_of data ''instance'';
          region = map_of data ''region''
      in if truthy ibm_token
         then Some [(''token'', ibm_token), (''channel'', channel),
                    (''instance'', instance), (''region'', region)]
         else None)"

definition run_program ::
    "'p python \<Rightarrow> bool \<Rightarrow> body \<Rightarrow> 'p \<Rightarrow> (py_exception + response) \<times> 'p" where
  "run_program exec local_mode request p =
     (case request of
        Invalid_utf8 \<Rightarrow> (Inl UnicodeDecodeError, p)
      | Invalid_json \<Rightarrow> (Inl JSONDecodeError, p)
      | Json_not_object \<Rightarrow> (Inl TypeError, p)
      | Json data \<Rightarrow>
          (case map_of data ''input_value'' of
             None \<Rightarrow> (Inl (KeyError ''input_value''), p)
           | Some code \<Rightarrow>
               let ibm_config = make_ibm_config data;
                   (result, elapsed, p') = execute_python_code exec local_mode code ibm_config p
               in if elapsed < timeout_seconds then
                    (case result of
                       Inl e \<Rightarrow> (Inl e, p')
                     | Inr output \<Rightarrow>
                         (Inr (JSONResponse
                            [(''output'', if output \<noteq> [] then str_replace [bsl, bsl, CHR ''n''] [nl] output
                                          else output)]), p'))
                  else
                    (Inr (JSONResponse
                       [(''output'', str_replace [bsl, bsl, CHR ''n''] [nl]
                           ''Error: Code execution timed out after 30 minutes.'')]), p')))"

text \<open>
  The application registers one exception handler, for \<^verbatim>\<open>JSONDecodeError\<close>; any other
  exception leaves the code of the program unhandled.
\<close>

datatype http_outcome = Response response | Unhandled py_exception

definition post_run :: "'p python \<Rightarrow> bool \<Rightarrow> body \<Rightarrow> 'p \<Rightarrow> http_outcome \<times> 'p" where
  "post_run exec local_mode request p =
     (case run_program exec local_mode request p of
        (Inl JSONDecodeError, p') \<Rightarrow> (Response json_decode_exception_handler, p')
      | (Inl e, p') \<Rightarrow> (Unhandled e, p')
      | (Inr r, p') \<Rightarrow> (Response r, p'))"


subsection \<open>Concrete buffers, runs and requests\<close>












definition plain_buffer :: string where
  "plain_buffer = ''print(1)''"


definition good_config :: py_dict where
  \<comment> \<open>the credential \<^verbatim>\<open>run_program\<close> builds for the token \<open>abc\<close>\<close>
  "good_config =
     [(''token'', Some ''abc''), (''channel'', Some ''ibm_quantum''),
      (''instance'', None), (''region'', None)]"

definition bad_token_config :: py_dict where
  \<comment> \<open>the credential \<^verbatim>\<open>run_program\<close> builds for the token \<^verbatim>\<open>tok\en\<close>\<close>
  "bad_token_config =
     [(''token'', Some (''tok'' @ [bsl] @ ''en'')), (''channel'', Some ''ibm_quantum''),
      (''instance'', None), (''region'', None)]"

definition bare_buffer :: string where
  "bare_buffer = ''service = QiskitRuntimeService()''"

definition header_text :: string where
  "header_text = ''## STEP 0 : IBM Quantum Config''"

definition step_buffer :: string where
  \<comment> \<open>a configuration section, and a later section with an option line\<close>
  "step_buffer =
     ''## STEP 0 : IBM Quantum Config\<newline>service = QiskitRuntimeService()\<newline>## STEP 1 : Test\<newline>estimator.options.resilience_level = 1\<newline>print(1)''"

definition header_last_buffer :: string where
  \<comment> \<open>the remote block, then the header as a last line without a newline\<close>
  "header_last_buffer = ibm_block_no_token @ [nl] @ ''## STEP 0 : IBM Quantum Config''"

definition header_after_buffer :: string where
  \<comment> \<open>a section, then the header as a last line without a newline\<close>
  "header_after_buffer = ''## STEP 1 : Run\<newline>x = 1\<newline>## STEP 0 : IBM Quantum Config''"

definition second_marker_buffer :: string where
  \<comment> \<open>the header is the second marker that contains \<^verbatim>\<open>STEP 0\<close> and \<^verbatim>\<open>IBM Quantum Config\<close>\<close>
  "second_marker_buffer =
     ''## STEP 0 : not IBM Quantum Config\<newline>x = 1\<newline>## STEP 0 : IBM Quantum Config\<newline>y = 2\<newline>''"

definition options_last_buffer :: string where
  \<comment> \<open>an option line as a last line without a newline\<close>
  "options_last_buffer =
     ''## STEP 0 : IBM Quantum Config\<newline>x = 1\<newline>## STEP 1 : Run\<newline>estimator.options.shots = 5''"




section \<open>Properties\<close>

subsection \<open>Which family of rules is applied\<close>

text \<open>
  Claim C1.  The rules for a token are applied, whatever the mode, exactly when a credential
  with a non-empty token is given; without such a token the rules for no token are applied in
  local mode and the buffer is returned unchanged in cloud mode; a credential whose token is
  empty or missing counts as no credential.  The handler builds a credential exactly when the
  request carries a non-empty token.
\<close>

theorem selection_rule:
  "(has_token (Some d) \<longrightarrow>
      replace_ibm_quantum_config local_mode code (Some d) = token_present code d)
   \<and> (\<not> has_token cfg \<longrightarrow> replace_ibm_quantum_config True code cfg = token_absent code)
   \<and> (\<not> has_token cfg \<longrightarrow> replace_ibm_quantum_config False code cfg = Inr code)
   \<and> (\<not> has_token cfg \<longrightarrow>
        replace_ibm_quantum_config local_mode code cfg =
        replace_ibm_quantum_config local_mode code None)
   \<and> (has_token (make_ibm_config data) \<longleftrightarrow> truthy (map_of data ''ibm_token''))"
  by (auto simp: has_token_def replace_ibm_quantum_config_def make_ibm_config_def dict_get_def
           Let_def split: option.splits)

theorem selection_rule_witness:
  "has_token (Some [(''token'', Some ''t'')])
   \<and> replace_ibm_quantum_config True ''x'' (Some [(''token'', Some ''t'')])
       = token_present ''x'' [(''token'', Some ''t'')]
   \<and> \<not> has_token (Some [(''token'', Some []), (''channel'', Some ''c'')])
   \<and> replace_ibm_quantum_config True ''x'' (Some [(''token'', Some []), (''channel'', Some ''c'')])
       = token_absent ''x''
   \<and> replace_ibm_quantum_config False ''x'' (Some [(''token'', Some []), (''channel'', Some ''c'')])
       = Inr ''x''"
  using selection_rule [of "[(''token'', Some ''t'')]" True "''x''"
                           "Some [(''token'', Some []), (''channel'', Some ''c'')]"]
  by (simp add: has_token_def dict_get_def)

subsection \<open>The sandbox\<close>












lemma exec_globals_only:
  "(\<forall>c q. exec c [(''__builtins__'', Builtins)] q = exec' c [(''__builtins__'', Builtins)] q)
     \<Longrightarrow> execute_python_code exec local_mode code cfg p
         = execute_python_code exec' local_mode code cfg p"
  by (simp add: execute_python_code_def Let_def split: sum.splits)

subsection \<open>The request handler\<close>

lemma invalid_json_400:
  "post_run exec local_mode Invalid_json p = (Response json_decode_exception_handler, p)"
  "status_code json_decode_exception_handler = 400"
  by (simp_all add: post_run_def run_program_def json_decode_exception_handler_def)

text \<open>
  Claim C6 (a request without the code field is answered with a 4xx status): on the body
  \<^verbatim>\<open>{"code": "print(1)"}\<close> the handler raises \<^verbatim>\<open>KeyError\<close>, for which the program has no
  handler, so the program itself produces no response.
\<close>

theorem missing_code_field_unhandled:
  "post_run exec local_mode (Json [(''code'', ''print(1)'')]) p
     = (Unhandled (KeyError ''input_value''), p)"
  by (simp add: post_run_def run_program_def)

text \<open>
  Claim C7 (every well-formed request is answered with a success status): on a request whose
  buffer is the local-simulator block and whose token is \<^verbatim>\<open>tok\en\<close>, \<^verbatim>\<open>re.sub\<close> rejects
  the replacement as a template and the exception leaves the handler.
\<close>

theorem bad_template_unhandled:
  "post_run exec local_mode
     (Json [(''input_value'', aer_block), (''ibm_token'', ''tok'' @ [bsl] @ ''en'')]) p
   = (Unhandled TemplateError, p)"
  by (simp add: post_run_def run_program_def make_ibm_config_def execute_python_code_def
     replace_ibm_quantum_config_def dict_get_def token_present_def aer_pattern_def re_match_def
     re_sub_def ibm_replacement_def service_params_str_def service_params_def dict_get_default_def
     aer_block_def bsl_def escape_step_def asciiletters_def escapes_def digits_def
     timeout_seconds_def)

subsection \<open>Literal patterns\<close>

text \<open>A pattern that is literal text is searched and replaced as \<^verbatim>\<open>in\<close> and
  \<^verbatim>\<open>str.replace\<close> do it.\<close>

lemma re_match_Lit:
  "l \<noteq> [] \<Longrightarrow> re_match (Lit l) s = (if prefix l s then Some (length l) else None)"
  by (auto simp: re_match_def prefix_def)

lemma re_search_Lit: "re_search (Lit l) s = str_in l s"
  by (induction s) (auto simp: re_match_def)

lemma re_sub_scan_Lit:
  "l \<noteq> [] \<Longrightarrow> re_sub_scan (Lit l) f s = str_replace l (f l) s"
proof (induction l "f l" s rule: str_replace.induct)
  case (1 old s)
  show ?case
  proof (cases s)
    case Nil
    then show ?thesis using 1(3) by (simp add: str_replace.simps)
  next
    case (Cons c cs)
    show ?thesis
    proof (cases "prefix old s")
      case True
      then obtain k where k: "length old = Suc k" using 1(3) by (cases old) auto
      have tk: "take (Suc k) (c # cs) = old"
        using True k Cons by (metis append_eq_conv_conj prefix_def)
      have "re_sub_scan (Lit old) f (drop (length old) s) = str_replace old (f old) (drop (length old) s)"
        using 1(1)[OF 1(3) _ True] 1(3) Cons by simp
      then show ?thesis
        using True Cons k tk 1(3)
        by (subst str_replace.simps) (simp add: re_match_Lit)
    next
      case False
      have "re_sub_scan (Lit old) f (tl s) = str_replace old (f old) (tl s)"
        using 1(2)[OF 1(3) _ False] 1(3) Cons by simp
      then show ?thesis
        using False Cons 1(3)
        by (subst str_replace.simps) (simp add: re_match_Lit)
    qed
  qed
qed

lemma str_in_iff: "str_in l s \<longleftrightarrow> (\<exists>a b. s = a @ l @ b)"
proof (induction s)
  case Nil
  then show ?case by auto
next
  case (Cons c cs)
  show ?case
  proof
    assume "str_in l (c # cs)"
    then consider "prefix l (c # cs)" | "str_in l cs" by auto
    then show "\<exists>a b. c # cs = a @ l @ b"
    proof cases
      case 1
      then show ?thesis by (metis append_Nil prefix_def)
    next
      case 2
      then obtain a b where "cs = a @ l @ b" using Cons by blast
      then have "c # cs = (c # a) @ l @ b" by simp
      then show ?thesis by blast
    qed
  next
    assume "\<exists>a b. c # cs = a @ l @ b"
    then obtain a b where ab: "c # cs = a @ l @ b" by blast
    show "str_in l (c # cs)"
    proof (cases a)
      case Nil
      then have "prefix l (c # cs)" using ab by (simp add: prefixI)
      then show ?thesis by simp
    next
      case (Cons x a')
      then have "cs = a' @ l @ b" using ab by simp
      then show ?thesis using Cons.IH by auto
    qed
  qed
qed

lemma str_replace_none:
  "l \<noteq> [] \<Longrightarrow> \<not> str_in l s \<Longrightarrow> str_replace l new s = s"
proof (induction s)
  case Nil
  then show ?case by (simp add: str_replace.simps)
next
  case (Cons c cs)
  then show ?case by (subst str_replace.simps) simp
qed

lemma str_replace_piece:
  assumes "l \<noteq> []" and "hd l \<notin> set (tl l)"
  shows "\<not> str_in l p \<Longrightarrow> str_replace l new (p @ l @ rest) = p @ new @ str_replace l new rest"
proof (induction p)
  case Nil
  then show ?case using assms(1) by (subst str_replace.simps) simp
next
  case (Cons c p)
  have np: "\<not> prefix l ((c # p) @ l @ rest)"
  proof
    assume pre: "prefix l ((c # p) @ l @ rest)"
    show False
    proof (cases "length l \<le> length (c # p)")
      case True
      then have "prefix l (c # p)" using pre
        by (metis prefix_length_prefix prefixI)
      then show ?thesis using Cons.prems by simp
    next
      case False
      then have lt: "length (c # p) < length l" by simp
      have "l ! length (c # p) = ((c # p) @ l @ rest) ! length (c # p)"
        using pre lt by (metis nth_append prefix_def)
      also have "\<dots> = hd l" using assms(1) by (simp add: nth_append hd_conv_nth)
      finally have "l ! length (c # p) = hd l" .
      moreover have "l ! length (c # p) \<in> set (tl l)"
        using lt assms(1) by (cases l) auto
      ultimately show False using assms(2) by simp
    qed
  qed
  have "\<not> str_in l p" using Cons.prems by simp
  then have "str_replace l new (p @ l @ rest) = p @ new @ str_replace l new rest"
    by (rule Cons.IH)
  then show ?case using np assms(1) by (subst str_replace.simps) simp
qed

lemma str_replace_join:
  assumes "l \<noteq> []" and "hd l \<notin> set (tl l)"
  shows "\<forall>p \<in> set ps. \<not> str_in l p \<Longrightarrow> str_replace l new (str_join l ps) = str_join new ps"
proof (induction ps rule: induct_list012)
  case 1
  then show ?case using assms(1) by (simp add: str_replace.simps)
next
  case (2 x)
  then show ?case using assms(1) by (simp add: str_replace_none)
next
  case (3 x y ys)
  then show ?case using assms by (simp add: str_replace_piece)
qed

lemma str_in_join: "2 \<le> length ps \<Longrightarrow> str_in l (str_join l ps)"
proof -
  assume "2 \<le> length ps"
  then obtain x y ys where "ps = x # y # ys"
    by (cases ps; cases "tl ps") auto
  then have "str_join l ps = x @ l @ str_join l (y # ys)" by simp
  then show ?thesis by (metis str_in_iff)
qed

lemma parse_template_plain:
  "bsl \<notin> set s \<Longrightarrow> parse_template s = Inr (map (\<lambda>c. TLit [c]) s)"
  by (induction s) auto

lemma expand_template_plain: "expand_template (map (\<lambda>c. TLit [c]) s) m = s"
  by (induction s) auto


subsection \<open>The rules for a token\<close>

lemma aer_block_border_free: "aer_block \<noteq> []" "hd aer_block \<notin> set (tl aer_block)"
  by (simp_all add: aer_block_def)

lemma bare_call_border_free: "bare_call \<noteq> []" "hd bare_call \<notin> set (tl bare_call)"
  by (simp_all add: bare_call_def)

lemma ibm_block_no_token_nonempty: "ibm_block_no_token \<noteq> []"
  by (simp add: ibm_block_no_token_def)

lemma no_aer_in_ibm_block: "\<not> str_in aer_block ([nl] @ ibm_block_no_token)"
  by code_simp

lemma ibm_block_in_rest: "str_in ibm_block_no_token (x @ [nl] @ ibm_block_no_token)"
  by (metis append.assoc append_Nil2 str_in_iff)

lemma re_sub_aer:
  "re_sub aer_pattern repl code =
     map_sum id (\<lambda>t. str_replace aer_block (expand_template t aer_block) code) (parse_template repl)"
  by (simp add: re_sub_def aer_pattern_def re_sub_scan_Lit aer_block_border_free split: sum.splits)

text \<open>
  Claim C2.  With a token, the rules are tried in the order (a) local-simulator block,
  (b) remote block without credential, (c) remote block with a credential, (d) bare call;
  the result is that of the first rule whose trigger matches and of no other; when none
  matches the buffer is returned unchanged.  On the buffer that holds the local-simulator
  block and, after it, the remote block without credential, both triggers match, rule (a) is
  applied and the remote block is left as it is.
\<close>

theorem first_match_wins:
  "(re_search aer_pattern code \<longrightarrow>
      token_present code d = re_sub aer_pattern (ibm_replacement d) code)
   \<and> (\<not> re_search aer_pattern code \<and> re_search ibm_pattern_no_token code \<longrightarrow>
      token_present code d = re_sub ibm_pattern_no_token (ibm_replacement d) code)
   \<and> (\<not> re_search aer_pattern code \<and> \<not> re_search ibm_pattern_no_token code
        \<and> re_search ibm_pattern_with_token code \<longrightarrow>
      token_present code d = re_sub ibm_pattern_with_token (ibm_replacement d) code)
   \<and> (\<not> re_search aer_pattern code \<and> \<not> re_search ibm_pattern_no_token code
        \<and> \<not> re_search ibm_pattern_with_token code \<and> str_in bare_call code \<longrightarrow>
      token_present code d =
        Inr (str_replace bare_call
               (''QiskitRuntimeService(\<newline>    '' @ service_params_str d @ ''\<newline>)'') code))
   \<and> (\<not> re_search aer_pattern code \<and> \<not> re_search ibm_pattern_no_token code
        \<and> \<not> re_search ibm_pattern_with_token code \<and> \<not> str_in bare_call code \<longrightarrow>
      token_present code d = Inr code)
   \<and> re_search aer_pattern (aer_block @ [nl] @ ibm_block_no_token)
   \<and> re_search ibm_pattern_no_token (aer_block @ [nl] @ ibm_block_no_token)
   \<and> token_present (aer_block @ [nl] @ ibm_block_no_token) d =
       map_sum id (\<lambda>t. expand_template t aer_block @ [nl] @ ibm_block_no_token)
         (parse_template (ibm_replacement d))"
proof -
  have a: "re_search aer_pattern (aer_block @ [nl] @ ibm_block_no_token)"
    by (metis aer_pattern_def re_search_Lit str_in_iff append_Nil)
  have b: "re_search ibm_pattern_no_token (aer_block @ [nl] @ ibm_block_no_token)"
    using ibm_block_in_rest [of aer_block]
    by (simp add: ibm_pattern_no_token_def re_search_Lit)
  have "str_replace aer_block new (aer_block @ [nl] @ ibm_block_no_token)
          = new @ [nl] @ ibm_block_no_token" for new
    using str_replace_piece [OF aer_block_border_free, of "[]" new "[nl] @ ibm_block_no_token"]
          str_replace_none [OF aer_block_border_free(1) no_aer_in_ibm_block]
    by (simp add: aer_block_border_free(1))
  then have c: "token_present (aer_block @ [nl] @ ibm_block_no_token) d =
       map_sum id (\<lambda>t. expand_template t aer_block @ [nl] @ ibm_block_no_token)
         (parse_template (ibm_replacement d))"
    using a by (simp add: token_present_def re_sub_aer)
  show ?thesis
    using a b c by (simp add: token_present_def)
qed

theorem first_match_wins_witness:
  "re_search aer_pattern (aer_block @ [nl] @ ibm_block_no_token)
   \<and> token_present (aer_block @ [nl] @ ibm_block_no_token) good_config
       = re_sub aer_pattern (ibm_replacement good_config) (aer_block @ [nl] @ ibm_block_no_token)
   \<and> \<not> re_search aer_pattern ibm_block_no_token
   \<and> re_search ibm_pattern_no_token ibm_block_no_token
   \<and> token_present ibm_block_no_token good_config
       = re_sub ibm_pattern_no_token (ibm_replacement good_config) ibm_block_no_token
   \<and> \<not> re_search aer_pattern bare_buffer \<and> \<not> re_search ibm_pattern_no_token bare_buffer
   \<and> \<not> re_search ibm_pattern_with_token bare_buffer \<and> str_in bare_call bare_buffer
   \<and> token_present bare_buffer good_config
       = Inr (str_replace bare_call
                (''QiskitRuntimeService(\<newline>    '' @ service_params_str good_config @ ''\<newline>)'')
                bare_buffer)
   \<and> \<not> re_search aer_pattern plain_buffer \<and> \<not> re_search ibm_pattern_no_token plain_buffer
   \<and> \<not> re_search ibm_pattern_with_token plain_buffer \<and> \<not> str_in bare_call plain_buffer
   \<and> token_present plain_buffer good_config = Inr plain_buffer"
proof -
  have a: "re_search aer_pattern (aer_block @ [nl] @ ibm_block_no_token)"
    by code_simp
  have b: "\<not> re_search aer_pattern ibm_block_no_token"
          "re_search ibm_pattern_no_token ibm_block_no_token"
    by code_simp+
  have d: "\<not> re_search aer_pattern bare_buffer" "\<not> re_search ibm_pattern_no_token bare_buffer"
          "\<not> re_search ibm_pattern_with_token bare_buffer" "str_in bare_call bare_buffer"
    by code_simp+
  have e: "\<not> re_search aer_pattern plain_buffer" "\<not> re_search ibm_pattern_no_token plain_buffer"
          "\<not> re_search ibm_pattern_with_token plain_buffer" "\<not> str_in bare_call plain_buffer"
    by code_simp+
  show ?thesis
    using a b d e
      first_match_wins [of "aer_block @ [nl] @ ibm_block_no_token" good_config]
      first_match_wins [of ibm_block_no_token good_config]
      first_match_wins [of bare_buffer good_config]
      first_match_wins [of plain_buffer good_config]
    by simp
qed



lemma rule_d_every_occurrence:
  assumes "2 \<le> length ps" and "\<forall>p \<in> set ps. \<not> str_in bare_call p"
    and "\<not> re_search aer_pattern (str_join bare_call ps)"
    and "\<not> re_search ibm_pattern_no_token (str_join bare_call ps)"
    and "\<not> re_search ibm_pattern_with_token (str_join bare_call ps)"
  shows "token_present (str_join bare_call ps) d =
           Inr (str_join (''QiskitRuntimeService(\<newline>    '' @ service_params_str d @ ''\<newline>)'') ps)"
  using assms
  by (simp add: token_present_def str_in_join str_replace_join [OF bare_call_border_free])

text \<open>
  Claim C10 (a rule that fires rewrites every occurrence of its trigger): on a buffer with
  two local-simulator blocks and the token \<^verbatim>\<open>tok\en\<close>, rule (a) fires and rewrites
  neither occurrence, because \<^verbatim>\<open>re.sub\<close> rejects the replacement as a template.
\<close>

theorem bad_template_no_rewrite:
  "re_search aer_pattern (aer_block @ [nl] @ aer_block)
   \<and> replace_ibm_quantum_config True (aer_block @ [nl] @ aer_block) (Some bad_token_config)
       = Inl TemplateError"
  by code_simp

subsection \<open>Deleting the option lines\<close>

text \<open>
  \<^verbatim>\<open>re.sub(r".*?\.options\..*?\n", "", s)\<close> deletes the lines of \<open>s\<close> that end in a newline
  and contain \<^verbatim>\<open>.options.\<close>, and nothing else: a match cannot cross a newline, so it
  starts where the scan stands, at the start of a line, and ends with the line.
\<close>

lemma takeWhile_line: "nl \<notin> set m \<Longrightarrow> takeWhile (cls_ok Any_but_newline) (m @ nl # rest) = m"
  by (induction m) auto

lemma takeWhile_noline: "nl \<notin> set m \<Longrightarrow> takeWhile (cls_ok Any_but_newline) m = m"
  by (induction m) auto

lemma concat_map_only:
  "\<forall>k \<in> set ks. set (g k) \<subseteq> {x} \<Longrightarrow> set (concat (map g ks)) \<subseteq> {x}"
  by (induction ks) auto

lemma concat_map_Nil: "concat (map g ks) = [] \<longleftrightarrow> (\<forall>k \<in> set ks. g k = [])"
  by (induction ks) auto

lemma only_hd: "xs \<noteq> [] \<Longrightarrow> set xs \<subseteq> {x} \<Longrightarrow> \<exists>ys. xs = x # ys"
  by (cases xs) auto

lemma Lit_nl_drop:
  assumes "nl \<notin> set m" and "k \<le> length m"
  shows "rmatch (Lit [nl]) (drop k (m @ nl # rest)) = (if k = length m then [rest] else [])"
proof (cases "k = length m")
  case True
  then show ?thesis by simp
next
  case False
  then have lt: "k < length m" using assms(2) by simp
  then have "drop k (m @ nl # rest) = (m ! k) # drop (Suc k) m @ nl # rest"
    by (simp add: Cons_nth_drop_Suc)
  moreover have "m ! k \<noteq> nl" using assms(1) lt by (metis nth_mem)
  ultimately show ?thesis using False by simp
qed

lemma rmatch_line_end:
  assumes "nl \<notin> set m"
  shows "rmatch line_end (m @ nl # rest) \<noteq> []"
    and "set (rmatch line_end (m @ nl # rest)) \<subseteq> {rest}"
proof -
  let ?g = "\<lambda>k. rmatch (Lit [nl]) (drop k (m @ nl # rest))"
  have r: "rmatch line_end (m @ nl # rest) = concat (map ?g [0..<Suc (length m)])"
    by (simp add: takeWhile_line[OF assms] comp_def del: upt_Suc rmatch.simps(1))
  have g: "?g k = (if k = length m then [rest] else [])" if "k \<in> set [0..<Suc (length m)]" for k
  proof -
    have "k \<le> length m" using that by auto
    then show ?thesis by (rule Lit_nl_drop[OF assms])
  qed
  have "?g (length m) \<noteq> []" using g[of "length m"] by (simp del: rmatch.simps)
  then have "\<not> (\<forall>k \<in> set [0..<Suc (length m)]. ?g k = [])"
    by (metis atLeastLessThan_iff lessI set_upt zero_le)
  then show "rmatch line_end (m @ nl # rest) \<noteq> []"
    unfolding r concat_map_Nil by blast
  have "\<forall>k \<in> set [0..<Suc (length m)]. set (?g k) \<subseteq> {rest}"
    using g by (simp del: rmatch.simps)
  then show "set (rmatch line_end (m @ nl # rest)) \<subseteq> {rest}"
    unfolding r by (rule concat_map_only)
qed

lemma Lit_nl_none:
  assumes "nl \<notin> set m"
  shows "rmatch (Lit [nl]) (drop k m) = []"
proof (cases "drop k m")
  case Nil
  then show ?thesis by simp
next
  case (Cons a list)
  then have "a \<in> set m" by (metis in_set_dropD list.set_intros(1))
  then show ?thesis using Cons assms by auto
qed

lemma rmatch_line_end_none:
  assumes "nl \<notin> set m"
  shows "rmatch line_end m = []"
  using Lit_nl_none[OF assms] by (simp add: comp_def del: upt_Suc rmatch.simps(1))

lemma prefix_before_nl:
  assumes "nl \<notin> set p"
  shows "prefix p (m @ nl # rest) \<longleftrightarrow> prefix p m"
proof
  assume pre: "prefix p (m @ nl # rest)"
  show "prefix p m"
  proof (cases "length p \<le> length m")
    case True
    then show ?thesis using pre by (metis prefix_length_prefix prefixI)
  next
    case False
    then have "p ! length m = (m @ nl # rest) ! length m"
      using pre by (metis not_le_imp_less nth_append prefix_def)
    then have "p ! length m = nl" by simp
    then show ?thesis using assms False by (metis not_le_imp_less nth_mem)
  qed
next
  assume "prefix p m"
  then show "prefix p (m @ nl # rest)" by (simp add: prefix_prefix)
qed

lemma str_in_drop: "str_in p s \<longleftrightarrow> (\<exists>k \<le> length s. prefix p (drop k s))"
proof (induction s)
  case Nil
  then show ?case by auto
next
  case (Cons c cs)
  show ?case
  proof
    assume "str_in p (c # cs)"
    then consider "prefix p (c # cs)" | "str_in p cs" by auto
    then show "\<exists>k \<le> length (c # cs). prefix p (drop k (c # cs))"
    proof cases
      case 1
      then show ?thesis by (intro exI[of _ 0]) simp
    next
      case 2
      then obtain k where "k \<le> length cs" "prefix p (drop k cs)" using Cons by blast
      then show ?thesis by (intro exI[of _ "Suc k"]) simp
    qed
  next
    assume "\<exists>k \<le> length (c # cs). prefix p (drop k (c # cs))"
    then obtain k where k: "k \<le> length (c # cs)" "prefix p (drop k (c # cs))" by blast
    show "str_in p (c # cs)"
    proof (cases k)
      case 0
      then show ?thesis using k by simp
    next
      case (Suc j)
      then show ?thesis using k Cons by auto
    qed
  qed
qed

lemma rmatch_opts_line:
  assumes "nl \<notin> set m"
  shows "set (rmatch (Seq (Lit opts) line_end) (m @ nl # rest)) \<subseteq> {rest}"
    and "rmatch (Seq (Lit opts) line_end) (m @ nl # rest) = [] \<longleftrightarrow> \<not> prefix opts m"
proof -
  have nlo: "nl \<notin> set opts" by (simp add: nl_def)
  have pre: "prefix opts (m @ nl # rest) \<longleftrightarrow> prefix opts m"
    by (rule prefix_before_nl[OF nlo])
  show "set (rmatch (Seq (Lit opts) line_end) (m @ nl # rest)) \<subseteq> {rest}"
  proof (cases "prefix opts m")
    case True
    then obtain m' where m': "m = opts @ m'" by (auto simp: prefix_def)
    then have "nl \<notin> set m'" using assms by simp
    from rmatch_line_end(2)[OF this, of rest] show ?thesis
      using m' by (simp del: rmatch.simps(3,4) add: rmatch.simps(4)[of "Lit opts"])
  next
    case False
    then show ?thesis using pre by (simp del: rmatch.simps(3,4) add: rmatch.simps(4)[of "Lit opts"])
  qed
  show "rmatch (Seq (Lit opts) line_end) (m @ nl # rest) = [] \<longleftrightarrow> \<not> prefix opts m"
  proof (cases "prefix opts m")
    case True
    then obtain m' where m': "m = opts @ m'" by (auto simp: prefix_def)
    then have "nl \<notin> set m'" using assms by simp
    from rmatch_line_end(1)[OF this, of rest] show ?thesis
      using m' True by (simp del: rmatch.simps(3,4) add: rmatch.simps(4)[of "Lit opts"])
  next
    case False
    then show ?thesis using pre by (simp del: rmatch.simps(3,4) add: rmatch.simps(4)[of "Lit opts"])
  qed
qed

lemma rmatch_opts_noline:
  assumes "nl \<notin> set m"
  shows "rmatch (Seq (Lit opts) line_end) m = []"
proof (cases "prefix opts m")
  case True
  then obtain m' where m': "m = opts @ m'" by (auto simp: prefix_def)
  then have "nl \<notin> set m'" using assms by simp
  from rmatch_line_end_none[OF this] show ?thesis
    using m' by (simp del: rmatch.simps(3,4) add: rmatch.simps(4)[of "Lit opts"])
next
  case False
  then show ?thesis by (simp del: rmatch.simps(3,4) add: rmatch.simps(4)[of "Lit opts"])
qed

lemma options_pattern_eq:
  "options_pattern = Seq (Star_lazy Any_but_newline) (Seq (Lit opts) line_end)"
  by (simp add: options_pattern_def)

lemma rmatch_options_line:
  assumes "nl \<notin> set l"
  shows "set (rmatch options_pattern (l @ nl # rest)) \<subseteq> {rest}"
    and "rmatch options_pattern (l @ nl # rest) = [] \<longleftrightarrow> \<not> str_in opts l"
proof -
  let ?T = "Seq (Lit opts) line_end"
  let ?g = "\<lambda>k. rmatch ?T (drop k (l @ nl # rest))"
  have r: "rmatch options_pattern (l @ nl # rest) = concat (map ?g [0..<Suc (length l)])"
    unfolding options_pattern_eq
    by (simp only: rmatch.simps(3) rmatch.simps(4)[of "Star_lazy Any_but_newline"]
          takeWhile_line[OF assms] map_map comp_def)
  have d: "drop k (l @ nl # rest) = drop k l @ nl # rest" if "k \<le> length l" for k
    using that by simp
  have nk: "nl \<notin> set (drop k l)" for k
    using assms by (meson in_set_dropD)
  have g1: "set (?g k) \<subseteq> {rest}" if "k \<le> length l" for k
    unfolding d[OF that] by (rule rmatch_opts_line(1)[OF nk])
  have g2: "?g k = [] \<longleftrightarrow> \<not> prefix opts (drop k l)" if "k \<le> length l" for k
    unfolding d[OF that] by (rule rmatch_opts_line(2)[OF nk])
  have "\<forall>k \<in> set [0..<Suc (length l)]. set (?g k) \<subseteq> {rest}"
  proof
    fix k assume "k \<in> set [0..<Suc (length l)]"
    then have "k \<le> length l" by auto
    then show "set (?g k) \<subseteq> {rest}" by (rule g1)
  qed
  then show "set (rmatch options_pattern (l @ nl # rest)) \<subseteq> {rest}"
    unfolding r by (rule concat_map_only)
  have "(\<forall>k \<in> set [0..<Suc (length l)]. ?g k = []) \<longleftrightarrow> (\<forall>k \<le> length l. ?g k = [])"
    by (metis atLeastLessThan_iff less_Suc_eq_le set_upt zero_le)
  also have "\<dots> \<longleftrightarrow> (\<forall>k \<le> length l. \<not> prefix opts (drop k l))"
    using g2 by blast
  finally have "(\<forall>k \<in> set [0..<Suc (length l)]. ?g k = []) \<longleftrightarrow> \<not> (\<exists>k \<le> length l. prefix opts (drop k l))"
    by blast
  then show "rmatch options_pattern (l @ nl # rest) = [] \<longleftrightarrow> \<not> str_in opts l"
    unfolding r concat_map_Nil by (simp add: str_in_drop del: rmatch.simps)
qed

lemma re_match_options_line:
  assumes "nl \<notin> set l"
  shows "re_match options_pattern (l @ nl # rest) =
           (if str_in opts l then Some (Suc (length l)) else None)"
proof (cases "str_in opts l")
  case True
  then have ne: "rmatch options_pattern (l @ nl # rest) \<noteq> []"
    using rmatch_options_line(2)[OF assms] by blast
  have "\<exists>ys. rmatch options_pattern (l @ nl # rest) = rest # ys"
    by (rule only_hd[OF ne rmatch_options_line(1)[OF assms]])
  then obtain ys where ys: "rmatch options_pattern (l @ nl # rest) = rest # ys" ..
  have "re_match options_pattern (l @ nl # rest) = Some (length (l @ nl # rest) - length rest)"
    unfolding re_match_def ys by simp
  then show ?thesis using True by simp
next
  case False
  then have e: "rmatch options_pattern (l @ nl # rest) = []"
    using rmatch_options_line(2)[OF assms] by blast
  have "re_match options_pattern (l @ nl # rest) = None"
    unfolding re_match_def e by simp
  then show ?thesis using False by simp
qed

lemma rmatch_options_noline:
  assumes "nl \<notin> set s"
  shows "rmatch options_pattern s = []"
proof -
  let ?T = "Seq (Lit opts) line_end"
  have nk: "nl \<notin> set (drop k s)" for k
    using assms by (meson in_set_dropD)
  have r: "rmatch options_pattern s = concat (map (\<lambda>k. rmatch ?T (drop k s)) [0..<Suc (length s)])"
    unfolding options_pattern_eq
    by (simp only: rmatch.simps(3) rmatch.simps(4)[of "Star_lazy Any_but_newline"]
          takeWhile_noline[OF assms] map_map comp_def)
  have "\<forall>k \<in> set [0..<Suc (length s)]. rmatch ?T (drop k s) = []"
  proof
    fix k assume "k \<in> set [0..<Suc (length s)]"
    show "rmatch ?T (drop k s) = []" by (rule rmatch_opts_noline[OF nk])
  qed
  then show ?thesis unfolding r concat_map_Nil .
qed

lemma re_match_options_noline:
  "nl \<notin> set s \<Longrightarrow> re_match options_pattern s = None"
  by (simp add: re_match_def rmatch_options_noline del: rmatch.simps)

lemma drop_option_lines_noline:
  "nl \<notin> set s \<Longrightarrow> drop_option_lines acc s = acc @ s"
  by (induction s arbitrary: acc) auto

lemma drop_option_lines_line:
  "nl \<notin> set l \<Longrightarrow>
     drop_option_lines acc (l @ nl # rest) =
       (if str_in opts (acc @ l) then [] else acc @ l @ [nl]) @ drop_option_lines [] rest"
  by (induction l arbitrary: acc) auto


lemma re_sub_scan_options_keep:
  assumes "nl \<notin> set l" and "\<not> str_in opts l"
  shows "re_sub_scan options_pattern f (l @ nl # rest) = l @ nl # re_sub_scan options_pattern f rest"
  using assms
proof (induction l)
  case Nil
  have "re_match options_pattern (nl # rest) = None"
    using re_match_options_line[of "[]" rest] by simp
  then show ?case by simp
next
  case (Cons c l)
  have "re_match options_pattern (c # l @ nl # rest) = None"
    using re_match_options_line[of "c # l" rest] Cons.prems by simp
  moreover have "re_sub_scan options_pattern f (l @ nl # rest) = l @ nl # re_sub_scan options_pattern f rest"
    using Cons by simp
  ultimately show ?case by simp
qed

lemma re_sub_scan_options_drop:
  assumes "nl \<notin> set l" and "str_in opts l"
  shows "re_sub_scan options_pattern f (l @ nl # rest) =
           f (l @ [nl]) @ re_sub_scan options_pattern f rest"
proof -
  from assms(2) obtain c l' where l: "l = c # l'" by (cases l) auto
  have "re_match options_pattern (c # l' @ nl # rest) = Some (Suc (length l))"
    using re_match_options_line[OF assms(1), of rest] assms(2) l by simp
  then show ?thesis using l by simp
qed

lemma re_sub_scan_options_noline:
  "nl \<notin> set s \<Longrightarrow> re_sub_scan options_pattern f s = s"
proof (induction s)
  case Nil
  then show ?case by simp
next
  case (Cons c s)
  then have "re_match options_pattern (c # s) = None"
    by (intro re_match_options_noline) simp
  then show ?case using Cons by simp
qed

lemma split_line:
  "nl \<in> set s \<Longrightarrow> \<exists>l rest. s = l @ nl # rest \<and> nl \<notin> set l"
  by (metis split_list_first)

lemma re_sub_scan_options:
  "re_sub_scan options_pattern (\<lambda>_. []) s = drop_option_lines [] s"
proof (induction "length s" arbitrary: s rule: less_induct)
  case less
  show ?case
  proof (cases "nl \<in> set s")
    case False
    then show ?thesis by (simp add: re_sub_scan_options_noline drop_option_lines_noline)
  next
    case True
    then obtain l rest where s: "s = l @ nl # rest" and l: "nl \<notin> set l"
      using split_line by blast
    have IH: "re_sub_scan options_pattern (\<lambda>_. []) rest = drop_option_lines [] rest"
      using less[of rest] s by simp
    show ?thesis
    proof (cases "str_in opts l")
      case True
      then show ?thesis
        unfolding s using re_sub_scan_options_drop[OF l True] IH
        by (simp add: drop_option_lines_line[OF l])
    next
      case False
      then show ?thesis
        unfolding s using re_sub_scan_options_keep[OF l False] IH
        by (simp add: drop_option_lines_line[OF l])
    qed
  qed
qed

lemma re_sub_options: "re_sub options_pattern [] s = Inr (drop_option_lines [] s)"
proof -
  have "expand_template [] = (\<lambda>_. [])" by (rule ext) simp
  then show ?thesis by (simp add: re_sub_def re_sub_scan_options)
qed

subsection \<open>Splitting into sections\<close>

text \<open>
  \<^verbatim>\<open>re.split\<close> returns an odd number of pieces, text and markers in turn, whose
  concatenation is the buffer; so the loop over the markers never assigns out of range.
\<close>

lemma re_split_scan_shape:
  "\<exists>a ys. re_split_scan r acc s = a # ys \<and> even (length ys)"
proof (induction r acc s rule: re_split_scan.induct)
  case (1 r acc)
  then show ?case by simp
next
  case (2 r acc c cs)
  show ?case
  proof (cases "re_match r (c # cs)")
    case None
    then show ?thesis using 2 by simp
  next
    case (Some n)
    show ?thesis
    proof (cases n)
      case 0
      then show ?thesis using Some 2 by simp
    next
      case (Suc k)
      then show ?thesis using Some 2 by auto
    qed
  qed
qed

lemma concat_re_split_scan: "concat (re_split_scan r acc s) = acc @ s"
proof (induction r acc s rule: re_split_scan.induct)
  case (1 r acc)
  then show ?case by simp
next
  case (2 r acc c cs)
  show ?case
  proof (cases "re_match r (c # cs)")
    case None
    then show ?thesis using 2 by simp
  next
    case (Some n)
    show ?thesis
    proof (cases n)
      case 0
      then show ?thesis using Some 2 by simp
    next
      case (Suc k)
      have "take k cs @ drop k cs = cs" by simp
      then show ?thesis using Some Suc 2 by simp
    qed
  qed
qed

lemma concat_re_split: "concat (re_split r s) = s"
  by (simp add: re_split_def concat_re_split_scan)

lemma step0_loop_eq:
  "even (length ys) \<Longrightarrow> step0_loop (length xs) (xs @ ys) = Inr (xs @ with_body_replaced ys)"
proof (induction ys arbitrary: xs rule: with_body_replaced.induct)
  case (1 h b rest)
  show ?case
  proof (cases "str_in ''STEP 0'' h \<and> str_in ''IBM Quantum Config'' h")
    case True
    then show ?thesis
      by (subst step0_loop.simps) (simp add: list_update_append)
  next
    case False
    have "step0_loop (length (xs @ [h, b])) ((xs @ [h, b]) @ rest)
            = Inr ((xs @ [h, b]) @ with_body_replaced rest)"
      using 1(1)[OF False, of "xs @ [h, b]"] 1(2) by simp
    then show ?thesis using False
      by (subst step0_loop.simps) auto
  qed
qed ((subst step0_loop.simps), simp)+

lemma step0_loop_re_split:
  "step0_loop (Suc 0) (re_split r s) =
     Inr (hd (re_split r s) # with_body_replaced (tl (re_split r s)))"
proof -
  obtain a ys where s: "re_split r s = a # ys" and e: "even (length ys)"
    using re_split_scan_shape[of r "[]" s] by (auto simp: re_split_def)
  show ?thesis using step0_loop_eq[OF e, of "[a]"] s by simp
qed

subsection \<open>The rules for no token\<close>

lemma aer_block_plain: "bsl \<notin> set aer_block"
  by (simp add: aer_block_def bsl_def)

lemma re_sub_aer_block:
  "re_sub p aer_block code = Inr (re_sub_scan p (\<lambda>_. aer_block) code)"
proof -
  have "expand_template (map (\<lambda>c. TLit [c]) aer_block) = (\<lambda>_. aer_block)"
    by (rule ext) (rule expand_template_plain)
  then show ?thesis
    by (simp add: re_sub_def parse_template_plain[OF aer_block_plain])
qed

lemma try_patterns_find:
  "try_patterns ps code =
     (case find (\<lambda>p. re_search p code) ps of
        None \<Rightarrow> Inr code
      | Some p \<Rightarrow> Inr (drop_option_lines [] (re_sub_scan p (\<lambda>_. aer_block) code)))"
  by (induction ps) (simp_all add: re_sub_aer_block re_sub_options)

lemma token_absent_header_path:
  assumes "re_search ibm_config_pattern code" and "3 \<le> length (re_split step_marker code)"
  shows "token_absent code =
           Inr (drop_option_lines []
                  (concat (hd (re_split step_marker code)
                           # with_body_replaced (tl (re_split step_marker code)))))"
  using assms by (simp add: token_absent_def step0_loop_re_split re_sub_options)

lemma token_absent_legacy_path:
  assumes "\<not> (re_search ibm_config_pattern code \<and> 3 \<le> length (re_split step_marker code))"
  shows "token_absent code =
           (case find (\<lambda>p. re_search p code) ibm_patterns of
              None \<Rightarrow> Inr code
            | Some p \<Rightarrow> Inr (drop_option_lines [] (re_sub_scan p (\<lambda>_. aer_block) code)))"
  using assms by (auto simp add: token_absent_def try_patterns_find)

lemma token_absent_no_match:
  assumes "\<not> re_search ibm_config_pattern code" and "\<forall>p \<in> set ibm_patterns. \<not> re_search p code"
  shows "token_absent code = Inr code"
proof -
  have "find (\<lambda>p. re_search p code) ibm_patterns = None"
    using assms(2) by (simp add: find_None_iff)
  then show ?thesis using token_absent_legacy_path[of code] assms(1) by simp
qed

lemma token_absent_total: "\<exists>r. token_absent code = Inr r"
proof (cases "re_search ibm_config_pattern code \<and> 3 \<le> length (re_split step_marker code)")
  case True
  then show ?thesis using token_absent_header_path by blast
next
  case False
  then show ?thesis
    using token_absent_legacy_path[OF False]
    by (cases "find (\<lambda>p. re_search p code) ibm_patterns") auto
qed

lemma ibm_block_border_free:
  "ibm_block_no_token \<noteq> []" "hd ibm_block_no_token \<notin> set (tl ibm_block_no_token)"
  by (simp_all add: ibm_block_no_token_def)

lemma find_legacy_no_token:
  assumes "\<not> re_search (ibm_patterns ! 0) code" and "str_in ibm_block_no_token code"
  shows "find (\<lambda>p. re_search p code) ibm_patterns = Some (Lit ibm_block_no_token)"
  using assms by (simp add: ibm_patterns_def re_search_Lit)

lemma header_last_rewritten:
  "token_absent header_last_buffer = Inr (aer_block @ [nl] @ header_text)"
proof -
  have h: "\<not> (re_search ibm_config_pattern header_last_buffer
              \<and> 3 \<le> length (re_split step_marker header_last_buffer))"
    by code_simp
  have n0: "\<not> re_search (ibm_patterns ! 0) header_last_buffer"
    by code_simp
  have i: "str_in ibm_block_no_token header_last_buffer"
    unfolding header_last_buffer_def by (metis str_in_iff append_Nil)
  have n1: "\<not> str_in ibm_block_no_token ([nl] @ header_text)"
    by code_simp
  have "str_replace ibm_block_no_token aer_block header_last_buffer = aer_block @ [nl] @ header_text"
    using str_replace_piece [OF ibm_block_border_free, of "[]" aer_block "[nl] @ header_text"]
          str_replace_none [OF ibm_block_border_free(1) n1]
    by (simp add: ibm_block_border_free(1) header_last_buffer_def header_text_def)
  moreover have "drop_option_lines [] (aer_block @ [nl] @ header_text) = aer_block @ [nl] @ header_text"
    by code_simp
  ultimately show ?thesis
    using token_absent_legacy_path[OF h] find_legacy_no_token[OF n0 i]
    by (simp add: re_sub_scan_Lit ibm_block_border_free(1))
qed

lemma options_last_rewritten:
  "token_absent options_last_buffer =
     Inr (header_text @ [nl, nl] @ aer_block @ [nl, nl] @ ''## STEP 1 : Run\<newline>estimator.options.shots = 5'')"
proof -
  have h: "re_search ibm_config_pattern options_last_buffer"
          "3 \<le> length (re_split step_marker options_last_buffer)"
    by code_simp+
  have "drop_option_lines []
          (concat (hd (re_split step_marker options_last_buffer)
                   # with_body_replaced (tl (re_split step_marker options_last_buffer))))
        = header_text @ [nl, nl] @ aer_block @ [nl, nl] @ ''## STEP 1 : Run\<newline>estimator.options.shots = 5''"
    by code_simp
  then show ?thesis using token_absent_header_path[OF h] by simp
qed


lemma header_after_rewritten:
  "token_absent header_after_buffer = Inr header_after_buffer"
proof -
  have h: "re_search ibm_config_pattern header_after_buffer"
          "3 \<le> length (re_split step_marker header_after_buffer)"
    by code_simp+
  have "drop_option_lines []
          (concat (hd (re_split step_marker header_after_buffer)
                   # with_body_replaced (tl (re_split step_marker header_after_buffer))))
        = header_after_buffer"
    by code_simp
  then show ?thesis using token_absent_header_path[OF h] by simp
qed

lemma second_marker_rewritten:
  "token_absent second_marker_buffer =
     Inr (''## STEP 0 : not IBM Quantum Config'' @ [nl, nl] @ aer_block @ [nl, nl]
          @ header_text @ [nl] @ ''y = 2'' @ [nl])"
proof -
  have h: "re_search ibm_config_pattern second_marker_buffer"
          "3 \<le> length (re_split step_marker second_marker_buffer)"
    by code_simp+
  have "drop_option_lines []
          (concat (hd (re_split step_marker second_marker_buffer)
                   # with_body_replaced (tl (re_split step_marker second_marker_buffer))))
        = ''## STEP 0 : not IBM Quantum Config'' @ [nl, nl] @ aer_block @ [nl, nl]
          @ header_text @ [nl] @ ''y = 2'' @ [nl]"
    by code_simp
  then show ?thesis using token_absent_header_path[OF h] by simp
qed

text \<open>
  Claim C3 as stated fails in four ways.  On a buffer that holds the remote block and, as its
  last line without a newline, the header, the header is found and yet the legacy pattern is
  applied.  On a buffer that holds a section and then the header as its last line without a
  newline, the header is found, the buffer is split, and no body is replaced.  On a buffer
  where an earlier marker contains \<^verbatim>\<open>STEP 0\<close> and \<^verbatim>\<open>IBM Quantum Config\<close>, the body after that
  marker is replaced and the body after the header is kept.  On a buffer with sections whose
  last line, without a newline, contains \<^verbatim>\<open>.options.\<close>, that line is not deleted.
\<close>

theorem token_absent_counterexample:
  "re_search ibm_config_pattern header_last_buffer
   \<and> token_absent header_last_buffer = Inr (aer_block @ [nl] @ header_text)
   \<and> token_absent header_last_buffer \<noteq> Inr header_last_buffer
   \<and> re_search ibm_config_pattern header_after_buffer
   \<and> token_absent header_after_buffer = Inr header_after_buffer
   \<and> \<not> str_in aer_block header_after_buffer
   \<and> re_search ibm_config_pattern second_marker_buffer
   \<and> token_absent second_marker_buffer =
       Inr (''## STEP 0 : not IBM Quantum Config'' @ [nl, nl] @ aer_block @ [nl, nl]
            @ header_text @ [nl] @ ''y = 2'' @ [nl])
   \<and> re_search ibm_config_pattern options_last_buffer
   \<and> token_absent options_last_buffer =
       Inr (header_text @ [nl, nl] @ aer_block @ [nl, nl]
            @ ''## STEP 1 : Run\<newline>estimator.options.shots = 5'')
   \<and> str_in ''.options.'' (header_text @ [nl, nl] @ aer_block @ [nl, nl]
            @ ''## STEP 1 : Run\<newline>estimator.options.shots = 5'')"
proof -
  have a: "re_search ibm_config_pattern header_last_buffer"
          "re_search ibm_config_pattern header_after_buffer"
          "re_search ibm_config_pattern second_marker_buffer"
          "re_search ibm_config_pattern options_last_buffer"
    by code_simp+
  have b: "aer_block @ [nl] @ header_text \<noteq> header_last_buffer"
    by code_simp
  have c: "str_in ''.options.'' (header_text @ [nl, nl] @ aer_block @ [nl, nl]
            @ ''## STEP 1 : Run\<newline>estimator.options.shots = 5'')"
    by code_simp
  have d: "\<not> str_in aer_block header_after_buffer"
    by code_simp
  show ?thesis
    using a b c d header_last_rewritten header_after_rewritten second_marker_rewritten
      options_last_rewritten
    by simp
qed

text \<open>
  Claim C3, amended.  Without a token, in local mode: when the buffer contains the header and
  splitting it on the section markers (\<^verbatim>\<open>## STEP\<close>, digits, the rest of the line and its
  newline) gives at least one marker, the body after the first marker that contains
  \<^verbatim>\<open>STEP 0\<close> and \<^verbatim>\<open>IBM Quantum Config\<close>, if there is one, is replaced with the
  local-simulator block, the sections are joined again in their order, and every line that
  ends in a newline and contains \<^verbatim>\<open>.options.\<close> is deleted.  Otherwise (no header, or no
  marker that ends in a newline) the two legacy patterns are tried in their order: every
  match of the first one that is found is replaced with the local-simulator block, and the
  same lines are deleted.  When neither the header nor a legacy pattern is found the buffer
  is returned unchanged.  The sections always concatenate to the buffer, and no exception is
  raised in any case.
\<close>

theorem token_absent_sections:
  "(re_search ibm_config_pattern code \<and> 3 \<le> length (re_split step_marker code) \<longrightarrow>
      token_absent code =
        Inr (drop_option_lines []
               (concat (hd (re_split step_marker code)
                        # with_body_replaced (tl (re_split step_marker code))))))
   \<and> (\<not> (re_search ibm_config_pattern code \<and> 3 \<le> length (re_split step_marker code)) \<longrightarrow>
      token_absent code =
        (case find (\<lambda>p. re_search p code) ibm_patterns of
           None \<Rightarrow> Inr code
         | Some p \<Rightarrow> Inr (drop_option_lines [] (re_sub_scan p (\<lambda>_. aer_block) code))))
   \<and> (\<not> re_search ibm_config_pattern code \<and> (\<forall>p \<in> set ibm_patterns. \<not> re_search p code) \<longrightarrow>
      token_absent code = Inr code)
   \<and> concat (re_split step_marker code) = code
   \<and> (\<exists>r. token_absent code = Inr r)"
  using token_absent_header_path [of code] token_absent_legacy_path [of code]
    token_absent_no_match [of code] token_absent_total [of code] concat_re_split [of step_marker code]
  by blast

theorem token_absent_sections_witness:
  "re_search ibm_config_pattern step_buffer \<and> 3 \<le> length (re_split step_marker step_buffer)
   \<and> token_absent step_buffer =
        Inr (drop_option_lines []
               (concat (hd (re_split step_marker step_buffer)
                        # with_body_replaced (tl (re_split step_marker step_buffer)))))
   \<and> \<not> (re_search ibm_config_pattern header_last_buffer
          \<and> 3 \<le> length (re_split step_marker header_last_buffer))
   \<and> token_absent header_last_buffer =
        (case find (\<lambda>p. re_search p header_last_buffer) ibm_patterns of
           None \<Rightarrow> Inr header_last_buffer
         | Some p \<Rightarrow>
             Inr (drop_option_lines [] (re_sub_scan p (\<lambda>_. aer_block) header_last_buffer)))
   \<and> \<not> re_search ibm_config_pattern plain_buffer
   \<and> \<not> re_search (ibm_patterns ! 0) plain_buffer
   \<and> \<not> re_search (ibm_patterns ! 1) plain_buffer
   \<and> token_absent plain_buffer = Inr plain_buffer"
proof -
  have a: "re_search ibm_config_pattern step_buffer \<and> 3 \<le> length (re_split step_marker step_buffer)"
    by code_simp
  have b: "\<not> (re_search ibm_config_pattern header_last_buffer
          \<and> 3 \<le> length (re_split step_marker header_last_buffer))"
    by code_simp
  have c: "\<not> re_search ibm_config_pattern plain_buffer
           \<and> (\<forall>p \<in> set ibm_patterns. \<not> re_search p plain_buffer)"
    by code_simp
  have d: "\<not> re_search (ibm_patterns ! 0) plain_buffer"
          "\<not> re_search (ibm_patterns ! 1) plain_buffer"
    by code_simp+
  show ?thesis
    using a b c d token_absent_sections [of step_buffer]
      token_absent_sections [of header_last_buffer] token_absent_sections [of plain_buffer]
    by blast
qed

subsection \<open>Rewriting twice\<close>
























end
